theory Spec2Isabelle
  imports Main "HOL-Library.Sublist"
begin

unbundle bit_operations_syntax

section \<open>Segment allocator\<close>

text \<open>
  The allocator of \<^verbatim>\<open>memory_dashboard.py\<close>, class \<^verbatim>\<open>SegmentAllocator\<close>.
  The four keys of the \<^verbatim>\<open>segments\<close> dictionary are the only segment names the program
  ever uses, so they form a datatype and the dictionary is a total function on it.
  Python integers are unbounded, hence \<^typ>\<open>int\<close>; \<^verbatim>\<open>x << 4\<close> is \<^term>\<open>push_bit 4 x\<close>.
\<close>

datatype seg_tag = CS | DS | SS | ES

record segment =
  base :: int
  next_offset :: int
  limit :: int

record segment_allocator =
  segments :: "seg_tag \<Rightarrow> segment"
  stack_pointer :: int

text \<open>
  Every \<^verbatim>\<open>raise\<close> of the program is a value of this type. The three \<^verbatim>\<open>MemoryError\<close>s are
  told apart by their message; \<open>TypeError\<close> and \<open>ValueError\<close> are raised by the Python
  runtime (unpacking or formatting \<^verbatim>\<open>None\<close>, \<^verbatim>\<open>int\<close> of a non-decimal digit).
\<close>

datatype error = OutOfMemory seg_tag | StackOverflow | StackUnderflow | TypeError | ValueError

definition init_segments :: "seg_tag \<Rightarrow> segment" where
  "init_segments t = (case t of
       CS \<Rightarrow> \<lparr>base = 0x1000, next_offset = 0x0000, limit = 0x0FFF\<rparr>
     | DS \<Rightarrow> \<lparr>base = 0x2000, next_offset = 0x0000, limit = 0x0FFF\<rparr>
     | SS \<Rightarrow> \<lparr>base = 0x3000, next_offset = 0x0000, limit = 0x0FFF\<rparr>
     | ES \<Rightarrow> \<lparr>base = 0x4000, next_offset = 0x0000, limit = 0x0FFF\<rparr>)"

definition init_allocator :: segment_allocator where
  "init_allocator = \<lparr>segments = init_segments, stack_pointer = 0xFFFE\<rparr>"

text \<open>
  A method returns \<open>Inr (result, allocator after the call)\<close>, or \<open>Inl e\<close> when it raises
  \<open>e\<close>. Each method raises before it has assigned anything, so a raising call leaves
  the allocator as it was.
\<close>

definition allocate_byte :: "seg_tag \<Rightarrow> segment_allocator \<Rightarrow> error + ((int \<times> int) \<times> segment_allocator)" where
  "allocate_byte seg_name a =
     (let seg_info = segments a seg_name in
      if next_offset seg_info < limit seg_info then
        (let off = next_offset seg_info;
             seg_info' = seg_info\<lparr>next_offset := next_offset seg_info + 1\<rparr>
         in Inr ((base seg_info, off), a\<lparr>segments := (segments a)(seg_name := seg_info')\<rparr>))
      else Inl (OutOfMemory seg_name))"

definition push_value :: "int \<Rightarrow> segment_allocator \<Rightarrow> error + (int \<times> segment_allocator)" where
  "push_value val a =
     (if stack_pointer a - 1 \<ge> push_bit 4 (base (segments a SS)) then
        (let a' = a\<lparr>stack_pointer := stack_pointer a - 2\<rparr>
         in Inr (stack_pointer a', a'))
      else Inl StackOverflow)"

definition pop_value :: "segment_allocator \<Rightarrow> error + (int \<times> segment_allocator)" where
  "pop_value a =
     (if stack_pointer a < push_bit 4 (base (segments a SS)) + limit (segments a SS) then
        (let old_sp = stack_pointer a
         in Inr (old_sp, a\<lparr>stack_pointer := stack_pointer a + 2\<rparr>))
      else Inl StackUnderflow)"

definition peek_next :: "seg_tag \<Rightarrow> segment_allocator \<Rightarrow> error + ((int \<times> int) \<times> segment_allocator)" where
  "peek_next seg_name a =
     (let seg_info = segments a seg_name in
      if next_offset seg_info < limit seg_info then
        Inr ((base seg_info, next_offset seg_info), a)
      else Inl (OutOfMemory seg_name))"

text \<open>
  A caller that invokes the same method \<open>n\<close> times in a row and catches what it raises:
  the results in call order, and the allocator after the last call.
\<close>

fun repeat_call ::
  "(segment_allocator \<Rightarrow> error + ('r \<times> segment_allocator)) \<Rightarrow> nat \<Rightarrow> segment_allocator \<Rightarrow> (error + 'r) list \<times> segment_allocator"
where
  "repeat_call f 0 a = ([], a)"
| "repeat_call f (Suc n) a =
     (case f a of
        Inl e \<Rightarrow> (case repeat_call f n a of (rs, a') \<Rightarrow> (Inl e # rs, a'))
      | Inr (r, a1) \<Rightarrow> (case repeat_call f n a1 of (rs, a') \<Rightarrow> (Inr r # rs, a')))"


section \<open>Strings\<close>

text \<open>
  Tokens and input text are Python \<^verbatim>\<open>str\<close> values. The model takes them over the
  Latin-1 repertoire, one \<^typ>\<open>char\<close> per code point (the code points that the parser's
  \<^verbatim>\<open>encode('latin1')\<close> accepts), and gives the \<^verbatim>\<open>str\<close> methods the program calls their
  Python meaning there. \<^verbatim>\<open>str.upper\<close> sends two Latin-1 letters (code points 181 and 255) to letters
  outside Latin-1; the model leaves those two unchanged. The program compares upper-cased
  text with ASCII constants only, and neither the Python result nor the model's is ASCII.
\<close>

definition upper_char :: "char \<Rightarrow> string" where
  "upper_char c =
     (let n = (of_char c :: nat) in
      if 97 \<le> n \<and> n \<le> 122 then [char_of (n - 32)]
      else if n = 223 then ''SS''
      else if (224 \<le> n \<and> n \<le> 246) \<or> (248 \<le> n \<and> n \<le> 254) then [char_of (n - 32)]
      else [c])"

definition upper :: "string \<Rightarrow> string" where
  "upper s = concat (map upper_char s)"

definition isspace_char :: "char \<Rightarrow> bool" where
  "isspace_char c =
     (let n = (of_char c :: nat) in
      (9 \<le> n \<and> n \<le> 13) \<or> (28 \<le> n \<and> n \<le> 32) \<or> n = 133 \<or> n = 160)"

definition isdigit_char :: "char \<Rightarrow> bool" where
  "isdigit_char c =
     (let n = (of_char c :: nat) in (48 \<le> n \<and> n \<le> 57) \<or> n = 178 \<or> n = 179 \<or> n = 185)"

definition isalpha_char :: "char \<Rightarrow> bool" where
  "isalpha_char c =
     (let n = (of_char c :: nat) in
      (65 \<le> n \<and> n \<le> 90) \<or> (97 \<le> n \<and> n \<le> 122) \<or> n = 170 \<or> n = 181 \<or> n = 186 \<or>
      (192 \<le> n \<and> n \<le> 214) \<or> (216 \<le> n \<and> n \<le> 246) \<or> (248 \<le> n \<and> n \<le> 255))"

definition isdigit :: "string \<Rightarrow> bool" where
  "isdigit s = (s \<noteq> [] \<and> list_all isdigit_char s)"

definition isalpha :: "string \<Rightarrow> bool" where
  "isalpha s = (s \<noteq> [] \<and> list_all isalpha_char s)"

text \<open>\<^verbatim>\<open>sub in s\<close>: \<open>sub\<close> occurs in \<open>s\<close> as a contiguous piece.\<close>

fun str_contains :: "string \<Rightarrow> string \<Rightarrow> bool" where
  "str_contains sub [] = (sub = [])"
| "str_contains sub (c # cs) = (prefix sub (c # cs) \<or> str_contains sub cs)"

definition startswith :: "string \<Rightarrow> string \<Rightarrow> bool" where
  "startswith s p = prefix p s"

definition endswith :: "string \<Rightarrow> string \<Rightarrow> bool" where
  "endswith s p = suffix p s"

definition strip :: "string \<Rightarrow> string" where
  "strip s = rev (dropWhile isspace_char (rev (dropWhile isspace_char s)))"

section \<open>Classifier\<close>

definition classify_input :: "string \<Rightarrow> seg_tag" where
  "classify_input token0 =
     (let token = upper token0 in
      if str_contains ''ES:'' token \<or> str_contains ''DEST'' token \<or> startswith token ''MOVS''
      then ES
      else
        (let stack_keywords = [''PUSH'', ''POP''] in
         if token \<in> set stack_keywords then SS
         else
           (let code_keywords = [''MOV'', ''CALL'', ''JMP'', ''ADD'', ''SUB'', ''MUL'', ''DIV'',
                                 ''RET'', ''INC'', ''DEC''] in
            if token \<in> set code_keywords then CS
            else
              (let data_keywords = [''AX'', ''BX'', ''CX'', ''DX'', ''SI'', ''DI'', ''BP'', ''SP'',
                                    ''DATA'', ''WORD'', ''BYTE''] in
               if token \<in> set data_keywords \<or> isalpha token \<or> isdigit token then DS
               else DS))))"

section \<open>Tokenizer and byte expansion\<close>

text \<open>
  \<^verbatim>\<open>re.split(r"[,\s;]+", s)\<close>: the pieces of \<open>s\<close> between the maximal runs of separator
  characters, in order; a run at either end of \<open>s\<close> leaves an empty piece there.
\<close>

definition is_sep :: "char \<Rightarrow> bool" where
  "is_sep c = (c = CHR '','' \<or> isspace_char c \<or> c = CHR '';'')"

function re_split :: "string \<Rightarrow> string list" where
  "re_split [] = [[]]"
| "re_split (c # cs) =
     (if is_sep c then [] # re_split (dropWhile is_sep cs)
      else (case re_split cs of [] \<Rightarrow> [[c]] | p # ps \<Rightarrow> (c # p) # ps))"
  by pat_completeness auto
termination
  by (relation "measure length") (auto simp: less_Suc_eq_le length_dropWhile_le)

definition is_hex :: "char \<Rightarrow> bool" where
  "is_hex c =
     (let n = (of_char c :: nat) in
      (48 \<le> n \<and> n \<le> 57) \<or> (65 \<le> n \<and> n \<le> 70) \<or> (97 \<le> n \<and> n \<le> 102))"

definition digit_val :: "char \<Rightarrow> int" where
  "digit_val c =
     (let n = (of_char c :: nat) in
      if n \<le> 57 then int n - 48 else if n \<le> 70 then int n - 55 else int n - 87)"

definition is_ascii_digit :: "char \<Rightarrow> bool" where
  "is_ascii_digit c = (let n = (of_char c :: nat) in 48 \<le> n \<and> n \<le> 57)"

text \<open>\<^verbatim>\<open>int(ds, 16)\<close> and \<^verbatim>\<open>int(ds)\<close> on a string of digits of that base.\<close>

definition int_of_digits :: "int \<Rightarrow> string \<Rightarrow> int" where
  "int_of_digits b ds = foldl (\<lambda>acc c. acc * b + digit_val c) 0 ds"

text \<open>The three \<^verbatim>\<open>re.fullmatch\<close> tests of the parser, in the order it makes them.\<close>

definition match_0x :: "string \<Rightarrow> bool" where
  "match_0x t =
     (case t of
        c0 # c1 # ds \<Rightarrow> c0 = CHR ''0'' \<and> c1 = CHR ''x'' \<and> ds \<noteq> [] \<and> list_all is_hex ds
      | _ \<Rightarrow> False)"

definition match_hexH :: "string \<Rightarrow> bool" where
  "match_hexH t =
     (t \<noteq> [] \<and> (last t = CHR ''H'' \<or> last t = CHR ''h'') \<and> butlast t \<noteq> [] \<and>
      list_all is_hex (butlast t))"

definition match_hex12 :: "string \<Rightarrow> bool" where
  "match_hex12 t = ((length t = 1 \<or> length t = 2) \<and> list_all is_hex t)"

definition encode_latin1 :: "string \<Rightarrow> int list" where
  "encode_latin1 s = map (\<lambda>c. int (of_char c)) s"

text \<open>The \<^verbatim>\<open>while v > 0\<close> loop: the bytes of \<open>v\<close>, lowest first.\<close>

function low_bytes :: "int \<Rightarrow> int list" where
  "low_bytes v = (if v > 0 then (v AND 0xFF) # low_bytes (drop_bit 8 v) else [])"
  by pat_completeness auto
termination
  by (relation "measure nat") (auto simp: drop_bit_eq_div)

text \<open>
  The bytes one token contributes. \<^verbatim>\<open>t[1:-1]\<close> is \<^term>\<open>butlast (tl t)\<close>, also for a token
  of one character. \<^verbatim>\<open>int(t)\<close> raises \<open>ValueError\<close> on a token that \<^verbatim>\<open>isdigit\<close> accepts
  and that holds a superscript digit. The interpreter's configurable bound on the length
  of a decimal literal is not modelled.
\<close>

definition is_quoted :: "string \<Rightarrow> bool" where
  "is_quoted t =
     ((startswith t [CHR 0x22] \<and> endswith t [CHR 0x22]) \<or>
      (startswith t [CHR 0x27] \<and> endswith t [CHR 0x27]))"

definition token_bytes :: "string \<Rightarrow> error + int list" where
  "token_bytes t =
     (if is_quoted t then Inr (encode_latin1 (butlast (tl t)))
      else
        (let num =
           (if match_0x t then Some (Inr (int_of_digits 16 (drop 2 t)))
            else if match_hexH t then Some (Inr (int_of_digits 16 (butlast t)))
            else if match_hex12 t then Some (Inr (int_of_digits 16 t))
            else if isdigit t then
              Some (if list_all is_ascii_digit t then Inr (int_of_digits 10 t)
                    else Inl ValueError)
            else None)
         in case num of
              None \<Rightarrow> Inr (encode_latin1 t)
            | Some (Inl e) \<Rightarrow> Inl e
            | Some (Inr v) \<Rightarrow> Inr (if v = 0 then [0] else low_bytes v)))"

text \<open>The \<^verbatim>\<open>for t in tokens\<close> loop, with its two accumulators.\<close>

fun parse_tokens :: "string list \<Rightarrow> int list \<Rightarrow> string list \<Rightarrow> error + (int list \<times> string list)" where
  "parse_tokens [] bytes_out cleaned_tokens = Inr (bytes_out, cleaned_tokens)"
| "parse_tokens (t # ts) bytes_out cleaned_tokens =
     (if t = [] then parse_tokens ts bytes_out cleaned_tokens
      else
        (case token_bytes t of
           Inl e \<Rightarrow> Inl e
         | Inr bs \<Rightarrow> parse_tokens ts (bytes_out @ bs) (cleaned_tokens @ [t])))"

definition parse_input_to_bytes :: "string \<Rightarrow> error + (int list \<times> string list)" where
  "parse_input_to_bytes text = parse_tokens (re_split (strip text)) [] []"


section \<open>Dashboard: step planner and executor\<close>

text \<open>
  The state of \<^verbatim>\<open>MemoryDashboard\<close> that its step pipeline reads and writes. A stored byte
  is whatever \<^verbatim>\<open>current_byte_value\<close> holds, \<^verbatim>\<open>None\<close> included. The text widget is the list
  of lines logged so far, oldest first, each line kept as the message it is with the
  values it interpolates (the hexadecimal rendering is not modelled); the tree widget is
  its rows, newest first; a label widget is the value it shows. \<open>after_id\<close> tells whether
  the field holds a timer.
\<close>

datatype reg = AX | BX | CX | DX | SP

datatype phase = SelectSegment | ShowOffset | CalcPhysical | Write

datatype step =
  Step (step_phase: phase) (step_byte: int) (step_index: nat) (step_token: string)
       (step_seg: seg_tag)

datatype log_line =
    LogClassified nat string seg_tag
  | LogSegment seg_tag int
  | LogNextFree nat seg_tag int
  | LogPhysical nat "int \<times> int \<times> int"
  | LogRegisterAX
  | LogPopped int
  | LogStackPointer int
  | LogError error
  | LogWritten nat int seg_tag int int
  | LogPrepared nat nat
  | LogComplete
  | LogPreparedStepwise
  | LogNoMoreSteps

record tree_row =
  row_seg_off :: "int \<times> int"
  row_phys :: int
  row_value :: int
  row_segment :: seg_tag

record dashboard =
  allocator :: segment_allocator
  memory :: "int \<rightharpoonup> int option"
  step_queue :: "step list"
  current_byte_value :: "int option"
  current_alloc_info :: "(seg_tag \<times> int \<times> int) option"
  after_id :: bool
  registers :: "reg \<Rightarrow> int"
  log_text :: "log_line list"
  tree :: "tree_row list"
  seg_labels :: "seg_tag \<Rightarrow> int option"
  reg_labels :: "reg \<Rightarrow> int"

text \<open>The numbers \<^verbatim>\<open>fmt_phys\<close> and \<^verbatim>\<open>fmt_phys_calc\<close> render.\<close>

definition fmt_phys :: "int \<Rightarrow> int \<Rightarrow> int" where
  "fmt_phys seg off = push_bit 4 seg + off"

definition fmt_phys_calc :: "int \<Rightarrow> int \<Rightarrow> int \<times> int \<times> int" where
  "fmt_phys_calc seg off = (push_bit 4 seg + off, seg, off)"

definition log :: "log_line \<Rightarrow> dashboard \<Rightarrow> dashboard" where
  "log line d = d\<lparr>log_text := log_text d @ [line]\<rparr>"

text \<open>A segment label shows the next offset, or \<open>None\<close> for \<^verbatim>\<open>FULL\<close>.\<close>

definition update_display :: "dashboard \<Rightarrow> dashboard" where
  "update_display d =
     (let (labels, a) =
        fold (\<lambda>seg (labels, a).
                case peek_next seg a of
                  Inr ((b, next_off), a') \<Rightarrow> (labels(seg := Some next_off), a')
                | Inl e \<Rightarrow> (labels(seg := None), a))
             [CS, DS, SS, ES] (seg_labels d, allocator d)
      in d\<lparr>allocator := a, seg_labels := labels, reg_labels := registers d\<rparr>)"

text \<open>
  The four closures of \<^verbatim>\<open>make_steps\<close>, each with the variables it captures as
  parameters. A closure returns the exception it raises, if any, and the dashboard as it
  leaves it. \<^verbatim>\<open>step_show_offset\<close>, \<^verbatim>\<open>step_calc_physical\<close> and \<^verbatim>\<open>step_write\<close> assign
  \<^verbatim>\<open>seg_name\<close> themselves, from \<^verbatim>\<open>current_alloc_info\<close>, so the name is local to them;
  unpacking \<^verbatim>\<open>None\<close> raises \<open>TypeError\<close>, and so does formatting \<^verbatim>\<open>None\<close> with \<^verbatim>\<open>02X\<close>.
\<close>

definition step_select_segment ::
  "int \<Rightarrow> nat \<Rightarrow> string \<Rightarrow> seg_tag \<Rightarrow> dashboard \<Rightarrow> error option \<times> dashboard" where
  "step_select_segment byte_value idx tok seg_name d =
     (case peek_next seg_name (allocator d) of
        Inl e \<Rightarrow> (Some e, d)
      | Inr ((b, off), a') \<Rightarrow>
          (None,
           update_display
             (log (LogSegment seg_name b)
                (log (LogClassified (idx + 1) tok seg_name)
                   (d\<lparr>allocator := a',
                      current_byte_value := Some byte_value,
                      current_alloc_info := Some (seg_name, b, off)\<rparr>)))))"

definition step_show_offset :: "nat \<Rightarrow> dashboard \<Rightarrow> error option \<times> dashboard" where
  "step_show_offset idx d =
     (case current_alloc_info d of
        None \<Rightarrow> (Some TypeError, d)
      | Some (seg_name, b, off) \<Rightarrow> (None, log (LogNextFree (idx + 1) seg_name off) d))"

definition step_calc_physical :: "nat \<Rightarrow> dashboard \<Rightarrow> error option \<times> dashboard" where
  "step_calc_physical idx d =
     (case current_alloc_info d of
        None \<Rightarrow> (Some TypeError, d)
      | Some (seg_name, b, off) \<Rightarrow>
          (None, log (LogPhysical (idx + 1) (fmt_phys_calc b off)) d))"

definition special_operation :: "string \<Rightarrow> seg_tag \<Rightarrow> dashboard \<Rightarrow> dashboard" where
  "special_operation tok seg_name d =
     (if upper tok = ''PUSH'' \<and> seg_name = SS then
        log LogRegisterAX (d\<lparr>registers := (registers d)(AX := 0x1234)\<rparr>)
      else if upper tok = ''POP'' \<and> seg_name = SS then
        (case pop_value (allocator d) of
           Inr (pop_addr, a') \<Rightarrow>
             log (LogStackPointer (stack_pointer a'))
               (log (LogPopped pop_addr)
                  (d\<lparr>allocator := a', registers := (registers d)(BX := 0x1234)\<rparr>))
         | Inl e \<Rightarrow> log (LogError e) d)
      else d)"

definition step_write :: "nat \<Rightarrow> string \<Rightarrow> dashboard \<Rightarrow> error option \<times> dashboard" where
  "step_write idx tok d =
     (case current_alloc_info d of
        None \<Rightarrow> (Some TypeError, d)
      | Some (seg_name, b, off) \<Rightarrow>
          (let phys = push_bit 4 b + off;
               d1 = d\<lparr>memory := (memory d)(phys \<mapsto> current_byte_value d)\<rparr>
           in case allocate_byte seg_name (allocator d1) of
                Inl e \<Rightarrow> (Some e, d1)
              | Inr (r, a') \<Rightarrow>
                  (let d2 = special_operation tok seg_name (d1\<lparr>allocator := a'\<rparr>)
                   in case current_byte_value d2 of
                        None \<Rightarrow> (Some TypeError, d2)
                      | Some v \<Rightarrow>
                          (None,
                           update_display
                             (log (LogWritten (idx + 1) v seg_name b off)
                                (d2\<lparr>tree :=
                                      \<lparr>row_seg_off = (b, off), row_phys = fmt_phys b off,
                                       row_value = v, row_segment = seg_name\<rparr> # tree d2\<rparr>))))))"

definition make_steps :: "int \<Rightarrow> nat \<Rightarrow> string \<Rightarrow> seg_tag \<Rightarrow> step list" where
  "make_steps byte_value idx tok seg_name =
     [Step SelectSegment byte_value idx tok seg_name,
      Step ShowOffset byte_value idx tok seg_name,
      Step CalcPhysical byte_value idx tok seg_name,
      Step Write byte_value idx tok seg_name]"

text \<open>Calling a queued closure.\<close>

fun run_step :: "step \<Rightarrow> dashboard \<Rightarrow> error option \<times> dashboard" where
  "run_step (Step SelectSegment byte_value idx tok seg_name) d =
     step_select_segment byte_value idx tok seg_name d"
| "run_step (Step ShowOffset byte_value idx tok seg_name) d = step_show_offset idx d"
| "run_step (Step CalcPhysical byte_value idx tok seg_name) d = step_calc_physical idx d"
| "run_step (Step Write byte_value idx tok seg_name) d = step_write idx tok d"

definition prepare_allocation :: "int list \<Rightarrow> string list \<Rightarrow> dashboard \<Rightarrow> dashboard" where
  "prepare_allocation bytes_list tokens d =
     (let d1 =
        foldl (\<lambda>d' (i, (b, tok)).
                 d'\<lparr>step_queue := step_queue d' @ make_steps b i tok (classify_input tok)\<rparr>)
              (d\<lparr>step_queue := []\<rparr>)
              (enumerate 0 (zip bytes_list tokens))
      in log (LogPrepared (length bytes_list) (length (step_queue d1))) d1)"

definition next_step :: "dashboard \<Rightarrow> error option \<times> dashboard" where
  "next_step d =
     (let d0 = (if after_id d then d\<lparr>after_id := False\<rparr> else d) in
      case step_queue d0 of
        [] \<Rightarrow> (None, log LogNoMoreSteps d0)
      | func # rest \<Rightarrow> run_step func (d0\<lparr>step_queue := rest\<rparr>))"

text \<open>
  One firing of the timer callback of the automatic mode: an exception of the step leaves
  \<^verbatim>\<open>run_auto_steps\<close> before it has scheduled itself again.
\<close>

definition run_auto_steps :: "dashboard \<Rightarrow> error option \<times> dashboard" where
  "run_auto_steps d =
     (case step_queue d of
        [] \<Rightarrow> (None, log LogComplete d)
      | func # rest \<Rightarrow>
          (case run_step func (d\<lparr>step_queue := rest\<rparr>) of
             (Some e, d') \<Rightarrow> (Some e, d')
           | (None, d') \<Rightarrow> (None, d'\<lparr>after_id := True\<rparr>)))"

text \<open>
  The ``Allocate (Step)'' button on the text of the input field. An exception of the
  parser leaves the handler; an empty byte list gets the warning box and nothing else.
\<close>

definition allocate_step_start :: "string \<Rightarrow> dashboard \<Rightarrow> error option \<times> dashboard" where
  "allocate_step_start txt d =
     (case parse_input_to_bytes txt of
        Inl e \<Rightarrow> (Some e, d)
      | Inr (bytes_list, tokens) \<Rightarrow>
          if bytes_list = [] then (None, d)
          else (None, log LogPreparedStepwise (prepare_allocation bytes_list tokens d)))"

text \<open>
  Sequential drain in single-step mode: \<open>n\<close> presses of ``Next Step''. An exception of
  a step is reported by the event loop, which then goes on with the dashboard as the step
  left it.
\<close>

fun next_steps :: "nat \<Rightarrow> dashboard \<Rightarrow> dashboard" where
  "next_steps 0 d = d"
| "next_steps (Suc n) d = next_steps n (snd (next_step d))"

text \<open>
  Sequential drain in automatic mode: the timer loop, which ends when a firing finds the
  queue empty or a step raises; at most \<open>n\<close> firings.
\<close>

fun auto_steps :: "nat \<Rightarrow> dashboard \<Rightarrow> error option \<times> dashboard" where
  "auto_steps 0 d = (None, d)"
| "auto_steps (Suc n) d =
     (case run_auto_steps d of
        (Some e, d') \<Rightarrow> (Some e, d')
      | (None, d') \<Rightarrow> if step_queue d = [] then (None, d') else auto_steps n d')"

text \<open>The byte number in the \<^verbatim>\<open>[Byte n]\<close> prefix of a log line, if the line has one.\<close>

fun line_byte :: "log_line \<Rightarrow> nat option" where
  "line_byte (LogClassified n tok s) = Some n"
| "line_byte (LogNextFree n s off) = Some n"
| "line_byte (LogPhysical n p) = Some n"
| "line_byte (LogWritten n v s b off) = Some n"
| "line_byte l = None"

definition init_dashboard :: dashboard where
  "init_dashboard =
     update_display
       \<lparr>allocator = init_allocator, memory = Map.empty, step_queue = [],
        current_byte_value = None, current_alloc_info = None, after_id = False,
        registers = (\<lambda>r. if r = SP then 0xFFFE else 0), log_text = [], tree = [],
        seg_labels = (\<lambda>s. Some 0), reg_labels = (\<lambda>r. 0)\<rparr>"


section \<open>Properties of the allocator\<close>

lemma map_upt_Suc_shift: "map f [0..<Suc k] = f 0 # map (\<lambda>i. f (Suc i)) [0..<k]"
  by (simp add: upt_conv_Cons map_Suc_upt [symmetric] del: upt_Suc)

lemma repeat_call_allocate:
  "next_offset (segments a t) \<le> limit (segments a t) \<Longrightarrow>
   repeat_call (allocate_byte t) k a =
     (map (\<lambda>i. if next_offset (segments a t) + int i < limit (segments a t)
                then Inr (base (segments a t), next_offset (segments a t) + int i)
                else Inl (OutOfMemory t)) [0..<k],
      a\<lparr>segments := (segments a)(t := (segments a t)
          \<lparr>next_offset := min (next_offset (segments a t) + int k) (limit (segments a t))\<rparr>)\<rparr>)"
proof (induction k arbitrary: a)
  case 0
  then show ?case by simp
next
  case (Suc k)
  let ?s = "segments a t"
  show ?case
  proof (cases "next_offset ?s < limit ?s")
    case True
    let ?a1 = "a\<lparr>segments := (segments a)(t := ?s\<lparr>next_offset := next_offset ?s + 1\<rparr>)\<rparr>"
    have call: "allocate_byte t a = Inr ((base ?s, next_offset ?s), ?a1)"
      using True by (simp add: allocate_byte_def Let_def)
    have pre: "next_offset (segments ?a1 t) \<le> limit (segments ?a1 t)"
      using True by simp
    have st: "?a1\<lparr>segments := (segments ?a1)(t := (segments ?a1 t)
                \<lparr>next_offset := min (next_offset (segments ?a1 t) + int k) (limit (segments ?a1 t))\<rparr>)\<rparr>
              = a\<lparr>segments := (segments a)(t := ?s
                \<lparr>next_offset := min (next_offset ?s + int (Suc k)) (limit ?s)\<rparr>)\<rparr>"
      by (simp add: add.assoc)
    have rs: "map (\<lambda>i. if next_offset (segments ?a1 t) + int i < limit (segments ?a1 t)
                then Inr (base (segments ?a1 t), next_offset (segments ?a1 t) + int i)
                else Inl (OutOfMemory t)) [0..<k]
           = map (\<lambda>i. if next_offset ?s + int (Suc i) < limit ?s
                then Inr (base ?s, next_offset ?s + int (Suc i))
                else Inl (OutOfMemory t)) [0..<k]"
      by (simp add: add.assoc)
    have ih: "repeat_call (allocate_byte t) k ?a1 =
        (map (\<lambda>i. if next_offset ?s + int (Suc i) < limit ?s
                then Inr (base ?s, next_offset ?s + int (Suc i))
                else Inl (OutOfMemory t)) [0..<k],
         a\<lparr>segments := (segments a)(t := ?s
                \<lparr>next_offset := min (next_offset ?s + int (Suc k)) (limit ?s)\<rparr>)\<rparr>)"
      using Suc.IH [OF pre] by (simp only: st rs)
    have step: "repeat_call (allocate_byte t) (Suc k) a =
        (Inr (base ?s, next_offset ?s) # fst (repeat_call (allocate_byte t) k ?a1),
         snd (repeat_call (allocate_byte t) k ?a1))"
      by (simp add: call split: prod.splits)
    show ?thesis
      by (simp only: step ih fst_conv snd_conv map_upt_Suc_shift) (simp add: True fun_upd_def)
  next
    case False
    with Suc.prems have eq: "next_offset ?s = limit ?s" by simp
    have call: "allocate_byte t a = Inl (OutOfMemory t)"
      using False by (simp add: allocate_byte_def Let_def)
    have step: "repeat_call (allocate_byte t) (Suc k) a =
        (Inl (OutOfMemory t) # fst (repeat_call (allocate_byte t) k a),
         snd (repeat_call (allocate_byte t) k a))"
      by (simp add: call split: prod.splits)
    show ?thesis
      by (simp only: step Suc.IH [OF Suc.prems] fst_conv snd_conv map_upt_Suc_shift)
         (simp add: eq fun_upd_def)
  qed
qed

text \<open>
  Claim C1. From a freshly constructed allocator, where every segment has
  \<open>next_offset = 0\<close> and \<open>limit = 0x0FFF\<close>, call number \<open>i\<close> (counted from 0) of
  \<open>allocate_byte tag\<close> returns \<open>(base, i)\<close> while \<open>i < limit\<close> and raises
  \<open>OutOfMemory tag\<close> from \<open>i = limit\<close> on; after \<open>k\<close> calls \<open>next_offset\<close> is
  \<open>min k limit\<close>. So exactly \<open>limit\<close> calls succeed, each moving \<open>next_offset\<close> up by
  one, and call \<open>limit + 1\<close> fails.
\<close>

theorem allocate_byte_exactly_limit:
  "limit (segments init_allocator tag) = 0x0FFF \<and>
   next_offset (segments init_allocator tag) = 0 \<and>
   repeat_call (allocate_byte tag) k init_allocator =
     (map (\<lambda>i. if int i < limit (segments init_allocator tag)
                then Inr (base (segments init_allocator tag), int i)
                else Inl (OutOfMemory tag)) [0..<k],
      init_allocator\<lparr>segments := (segments init_allocator)(tag := (segments init_allocator tag)
          \<lparr>next_offset := min (int k) (limit (segments init_allocator tag))\<rparr>)\<rparr>)"
proof -
  have l: "limit (segments init_allocator tag) = 0x0FFF"
    by (cases tag) (simp_all add: init_allocator_def init_segments_def)
  have n: "next_offset (segments init_allocator tag) = 0"
    by (cases tag) (simp_all add: init_allocator_def init_segments_def)
  have "next_offset (segments init_allocator tag) \<le> limit (segments init_allocator tag)"
    by (simp add: l n)
  from repeat_call_allocate [OF this, of k] show ?thesis
    by (simp add: l n)
qed

lemma repeat_call_peek:
  "repeat_call (peek_next t) n a =
     (replicate n (case peek_next t a of Inl e \<Rightarrow> Inl e | Inr (r, a') \<Rightarrow> Inr r), a)"
  by (induction n) (auto simp: peek_next_def Let_def)

text \<open>
  Claim C5. For every tag and every allocator, \<open>peek_next tag\<close> returns what
  \<open>allocate_byte tag\<close> returns there, raises \<open>OutOfMemory tag\<close> exactly when
  \<open>allocate_byte tag\<close> does, and leaves the allocator as it found it; any number of
  calls in a row give the same result each time and the same allocator at the end.
\<close>

theorem peek_next_read_only:
  "peek_next tag a = (case allocate_byte tag a of Inl e \<Rightarrow> Inl e | Inr (r, a') \<Rightarrow> Inr (r, a)) \<and>
   (peek_next tag a = Inl (OutOfMemory tag)) = (allocate_byte tag a = Inl (OutOfMemory tag)) \<and>
   isl (peek_next tag a) = isl (allocate_byte tag a) \<and>
   repeat_call (peek_next tag) n a =
     (replicate n (case peek_next tag a of Inl e \<Rightarrow> Inl e | Inr (r, a') \<Rightarrow> Inr r), a)"
  by (simp add: repeat_call_peek) (simp add: peek_next_def allocate_byte_def Let_def)

text \<open>
  Claim C2 says that on the freshly constructed allocator, stack pointer \<open>0xFFFE\<close>, one
  \<open>push_value\<close> succeeds and moves the stack pointer to \<open>0xFFFC\<close>, and that a
  \<open>pop_value\<close> after it restores \<open>0xFFFE\<close>. The code raises \<open>StackOverflow\<close> there
  and moves nothing: its guard compares \<open>0xFFFE - 1\<close> with \<open>SS.base << 4 = 0x30000\<close>.
\<close>

theorem push_value_fresh_overflow:
  "push_value 0x1234 init_allocator = Inl StackOverflow \<and>
   stack_pointer init_allocator - 1 = 0xFFFD \<and>
   push_bit 4 (base (segments init_allocator SS)) = 0x30000"
  by (simp add: push_value_def init_allocator_def init_segments_def)

text \<open>
  Claim C3 says that \<open>pop_value\<close> on the freshly constructed allocator raises
  \<open>StackUnderflow\<close> and keeps the stack pointer. The code returns \<open>0xFFFE\<close> there and
  moves the stack pointer to \<open>0x10000\<close>.
\<close>

theorem pop_value_fresh_succeeds:
  "pop_value init_allocator = Inr (0xFFFE, init_allocator\<lparr>stack_pointer := 0x10000\<rparr>)"
  by (simp add: pop_value_def init_allocator_def init_segments_def)

text \<open>
  Claim C6 says that the stack pointer of every reachable allocator is even and lies in
  \<open>[SS.base << 4, (SS.base << 4) + SS.limit]\<close>. The freshly constructed allocator
  already has its stack pointer, \<open>0xFFFE\<close>, below \<open>SS.base << 4 = 0x30000\<close>.
\<close>

theorem stack_pointer_fresh_outside:
  "stack_pointer init_allocator = 0xFFFE \<and>
   push_bit 4 (base (segments init_allocator SS)) = 0x30000 \<and>
   \<not> (push_bit 4 (base (segments init_allocator SS)) \<le> stack_pointer init_allocator)"
  by (simp add: init_allocator_def init_segments_def)

section \<open>Properties of the classifier\<close>

lemma of_char_lt_256: "(of_char c :: nat) < 256"
  by (cases c) (simp add: of_char_def horner_sum_eq_sum)

lemma upper_char_idem: "concat (map upper_char (upper_char c)) = upper_char c"
  using of_char_lt_256 [of c] by (auto simp: upper_char_def Let_def)

lemma upper_idem: "upper (upper s) = upper s"
  by (induction s) (simp_all add: upper_def upper_char_idem)

text \<open>
  Claim C7. \<open>classify_input\<close> is a function of the upper-cased token alone, defined on
  every string, with the rules tried in this order: a token whose upper-cased form contains
  \<open>ES:\<close> or \<open>DEST\<close>, or starts with \<open>MOVS\<close>, goes to ES; else the exact tokens PUSH
  and POP go to SS; else the ten exact mnemonics go to CS; everything else goes to DS.
  Two tokens with the same upper-cased form are classified alike, and a token like its own
  upper-cased form. \<open>ES:DATA\<close> goes to ES, \<open>PUSH\<close> to SS, \<open>MOV\<close> to CS, \<open>AX\<close> to DS, in
  either case, and the alphabetic token \<open>HELLO\<close>, which no rule names, to DS.
\<close>

theorem classify_input_precedence:
  "classify_input t =
     (if str_contains ''ES:'' (upper t) \<or> str_contains ''DEST'' (upper t) \<or>
         startswith (upper t) ''MOVS'' then ES
      else if upper t \<in> {''PUSH'', ''POP''} then SS
      else if upper t \<in> {''MOV'', ''CALL'', ''JMP'', ''ADD'', ''SUB'', ''MUL'', ''DIV'',
                           ''RET'', ''INC'', ''DEC''} then CS
      else DS) \<and>
   classify_input (upper t) = classify_input t \<and>
   (upper t = upper t' \<longrightarrow> classify_input t = classify_input t') \<and>
   classify_input ''ES:DATA'' = ES \<and> classify_input ''PUSH'' = SS \<and>
   classify_input ''MOV'' = CS \<and> classify_input ''AX'' = DS \<and>
   classify_input ''es:data'' = ES \<and> classify_input ''Push'' = SS \<and>
   classify_input ''mov'' = CS \<and> classify_input ''ax'' = DS \<and>
   classify_input ''HELLO'' = DS"
proof -
  have shape: "classify_input t =
     (if str_contains ''ES:'' (upper t) \<or> str_contains ''DEST'' (upper t) \<or>
         startswith (upper t) ''MOVS'' then ES
      else if upper t \<in> {''PUSH'', ''POP''} then SS
      else if upper t \<in> {''MOV'', ''CALL'', ''JMP'', ''ADD'', ''SUB'', ''MUL'', ''DIV'',
                           ''RET'', ''INC'', ''DEC''} then CS
      else DS)"
    by (simp add: classify_input_def Let_def)
  have idem: "classify_input (upper t) = classify_input t"
    by (simp add: classify_input_def upper_idem)
  have same: "upper t = upper t' \<longrightarrow> classify_input t = classify_input t'"
    by (simp add: classify_input_def)
  have e1: "classify_input ''ES:DATA'' = ES" by code_simp
  have e2: "classify_input ''PUSH'' = SS" by code_simp
  have e3: "classify_input ''MOV'' = CS" by code_simp
  have e4: "classify_input ''AX'' = DS" by code_simp
  have e5: "classify_input ''es:data'' = ES" by code_simp
  have e6: "classify_input ''Push'' = SS" by code_simp
  have e7: "classify_input ''mov'' = CS" by code_simp
  have e8: "classify_input ''ax'' = DS" by code_simp
  have e9: "classify_input ''HELLO'' = DS" by code_simp
  show ?thesis
    using shape idem same e1 e2 e3 e4 e5 e6 e7 e8 e9 by blast
qed

theorem classify_input_precedence_witness:
  "upper ''push'' = upper ''PuSh'' \<and> classify_input ''push'' = classify_input ''PuSh'' \<and>
   classify_input ''PuSh'' = SS"
proof -
  have h: "upper ''push'' = upper ''PuSh''" by code_simp
  have v: "classify_input ''PuSh'' = SS" by code_simp
  from classify_input_precedence [of "''push''" "''PuSh''"] h v show ?thesis by blast
qed

section \<open>Properties of the tokenizer\<close>

text \<open>
  Claim C9 says that the byte list and the token list of \<open>parse_input_to_bytes\<close> have
  the same length, a token being listed once for each of its bytes. The code lists every
  token once, whatever the number of its bytes: the text \<open>PUSH AX\<close> gives six bytes
  and two tokens.
\<close>

theorem parse_input_to_bytes_lengths_differ:
  "parse_input_to_bytes ''PUSH AX'' =
     Inr ([0x50, 0x55, 0x53, 0x48, 0x41, 0x58], [''PUSH'', ''AX'']) \<and>
   length [0x50, 0x55, 0x53, 0x48, 0x41, 0x58 :: int] = 6 \<and> length [''PUSH'', ''AX''] = 2"
  by code_simp

section \<open>Properties of the step planner and the executor\<close>

lemma update_display_eq:
  "update_display d =
     d\<lparr>seg_labels := (\<lambda>seg. if next_offset (segments (allocator d) seg) < limit (segments (allocator d) seg)
                                then Some (next_offset (segments (allocator d) seg)) else None),
       reg_labels := registers d\<rparr>"
proof -
  have "(\<lambda>seg. if next_offset (segments (allocator d) seg) < limit (segments (allocator d) seg)
                                then Some (next_offset (segments (allocator d) seg)) else None)
      = (seg_labels d)
          (CS := if next_offset (segments (allocator d) CS) < limit (segments (allocator d) CS)
                                then Some (next_offset (segments (allocator d) CS)) else None,
           DS := if next_offset (segments (allocator d) DS) < limit (segments (allocator d) DS)
                                then Some (next_offset (segments (allocator d) DS)) else None,
           SS := if next_offset (segments (allocator d) SS) < limit (segments (allocator d) SS)
                                then Some (next_offset (segments (allocator d) SS)) else None,
           ES := if next_offset (segments (allocator d) ES) < limit (segments (allocator d) ES)
                                then Some (next_offset (segments (allocator d) ES)) else None)"
    (is "?f = ?g")
  proof
    fix seg show "?f seg = ?g seg" by (cases seg) simp_all
  qed
  then show ?thesis
    by (simp add: update_display_def peek_next_def Let_def)
qed

lemma step_write_memory:
  "current_alloc_info d = Some (sn, b, off) \<Longrightarrow>
   memory (snd (step_write idx tok d)) = (memory d)(push_bit 4 b + off \<mapsto> current_byte_value d)"
  by (auto simp: step_write_def Let_def update_display_eq log_def special_operation_def
           split: sum.splits option.splits prod.splits)

lemma log_fields [simp]:
  "allocator (log l d) = allocator d"
  "memory (log l d) = memory d"
  "step_queue (log l d) = step_queue d"
  "current_byte_value (log l d) = current_byte_value d"
  "current_alloc_info (log l d) = current_alloc_info d"
  "after_id (log l d) = after_id d"
  "registers (log l d) = registers d"
  "tree (log l d) = tree d"
  "log_text (log l d) = log_text d @ [l]"
  by (simp_all add: log_def)

lemma update_display_fields [simp]:
  "allocator (update_display d) = allocator d"
  "memory (update_display d) = memory d"
  "step_queue (update_display d) = step_queue d"
  "current_byte_value (update_display d) = current_byte_value d"
  "current_alloc_info (update_display d) = current_alloc_info d"
  "after_id (update_display d) = after_id d"
  "registers (update_display d) = registers d"
  "tree (update_display d) = tree d"
  "log_text (update_display d) = log_text d"
  by (simp_all add: update_display_eq)

lemma special_operation_fields [simp]:
  "memory (special_operation tok sn d) = memory d"
  "step_queue (special_operation tok sn d) = step_queue d"
  "after_id (special_operation tok sn d) = after_id d"
  "current_byte_value (special_operation tok sn d) = current_byte_value d"
  "current_alloc_info (special_operation tok sn d) = current_alloc_info d"
  "tree (special_operation tok sn d) = tree d"
  by (simp_all add: special_operation_def split: sum.splits prod.splits)

lemma peek_next_Inr:
  "peek_next t a = Inr ((b, off), a') \<Longrightarrow>
   a' = a \<and> b = base (segments a t) \<and> off = next_offset (segments a t) \<and>
   next_offset (segments a t) < limit (segments a t)"
  by (auto simp: peek_next_def Let_def split: if_splits)

lemma run_step_step_queue: "step_queue (snd (run_step st d)) = step_queue d"
proof (cases st)
  case (Step ph bv idx tok sn)
  show ?thesis
  proof (cases ph)
    case SelectSegment
    then show ?thesis unfolding Step
      by (simp add: step_select_segment_def split: sum.splits prod.splits)
  next
    case ShowOffset
    then show ?thesis unfolding Step
      by (simp add: step_show_offset_def split: option.splits prod.splits)
  next
    case CalcPhysical
    then show ?thesis unfolding Step
      by (simp add: step_calc_physical_def split: option.splits prod.splits)
  next
    case Write
    then show ?thesis unfolding Step
      by (simp add: step_write_def Let_def split: sum.splits option.splits prod.splits)
  qed
qed

lemma after_id_cancel: "(if after_id d then d\<lparr>after_id := False\<rparr> else d) = d\<lparr>after_id := False\<rparr>"
  by (cases d) simp

lemma next_step_Cons:
  "step_queue d = st # rest \<Longrightarrow>
   next_step d = run_step st (d\<lparr>after_id := False, step_queue := rest\<rparr>)"
  unfolding next_step_def after_id_cancel by (simp add: Let_def)

lemma next_steps_Suc: "next_steps (Suc n) d = snd (next_step (next_steps n d))"
  by (induction n arbitrary: d) simp_all

lemma next_steps_queue:
  "n \<le> length (step_queue d) \<Longrightarrow> step_queue (next_steps n d) = drop n (step_queue d)"
proof (induction n)
  case 0
  then show ?case by simp
next
  case (Suc n)
  then have q: "step_queue (next_steps n d) = step_queue d ! n # drop (Suc n) (step_queue d)"
    by (simp add: Cons_nth_drop_Suc)
  show ?case
    unfolding next_steps_Suc next_step_Cons [OF q]
    by (simp add: run_step_step_queue)
qed

lemma next_steps_nth:
  assumes "n < length (step_queue d)"
  shows "next_steps (Suc n) d =
         snd (run_step (step_queue d ! n)
               ((next_steps n d)\<lparr>after_id := False, step_queue := drop (Suc n) (step_queue d)\<rparr>))"
proof -
  from assms have q: "step_queue (next_steps n d) = step_queue d ! n # drop (Suc n) (step_queue d)"
    by (simp add: next_steps_queue Cons_nth_drop_Suc)
  show ?thesis
    unfolding next_steps_Suc next_step_Cons [OF q] ..
qed

lemma foldl_plan:
  "foldl (\<lambda>d' (i, (b, tok)).
            d'\<lparr>step_queue := step_queue d' @ make_steps b i tok (classify_input tok)\<rparr>) d0 xs
   = d0\<lparr>step_queue := step_queue d0 @
          concat (map (\<lambda>(i, (b, tok)). make_steps b i tok (classify_input tok)) xs)\<rparr>"
  by (induction xs arbitrary: d0) (simp_all add: case_prod_beta)

lemma enumerate_zip_nth:
  "enumerate 0 (zip bs toks) =
     map (\<lambda>i. (i, (bs ! i, toks ! i))) [0..<min (length bs) (length toks)]"
  by (rule nth_equalityI) (simp_all add: nth_enumerate_eq)

lemma prepare_allocation_eq:
  "prepare_allocation bs toks d =
     d\<lparr>step_queue :=
         concat (map (\<lambda>i. make_steps (bs ! i) i (toks ! i) (classify_input (toks ! i)))
                     [0..<min (length bs) (length toks)]),
       log_text := log_text d @
         [LogPrepared (length bs) (4 * min (length bs) (length toks))]\<rparr>"
proof -
  have len: "length (concat (map (\<lambda>i. make_steps (bs ! i) i (toks ! i) (classify_input (toks ! i)))
                     [0..<m])) = 4 * m" for m
    by (induction m) (simp_all add: make_steps_def)
  show ?thesis
    by (simp add: prepare_allocation_def Let_def foldl_plan enumerate_zip_nth log_def
          o_def len)
qed

lemma concat_replicate4_bytes:
  "concat (map (\<lambda>i. replicate 4 (bs ! i)) [0..<min (length bs) (length toks)])
   = concat (map (replicate 4) (take (length toks) bs))"
proof -
  have "map (\<lambda>i. replicate 4 (bs ! i)) [0..<min (length bs) (length toks)]
        = map (replicate 4) (take (length toks) bs)"
    by (rule nth_equalityI) simp_all
  then show ?thesis by simp
qed

lemma planned_bytes:
  "map step_byte (concat (map (\<lambda>i. make_steps (bs ! i) i (toks ! i) (classify_input (toks ! i)))
                     [0..<min (length bs) (length toks)]))
   = concat (map (replicate 4) (take (length toks) bs))"
  unfolding concat_replicate4_bytes [symmetric]
  by (simp add: map_concat o_def make_steps_def numeral_eq_Suc)


lemma special_operation_log:
  "\<exists>ls. log_text (special_operation tok sn d) = log_text d @ ls \<and>
        list_all (\<lambda>l. line_byte l = None) ls"
  by (auto simp: special_operation_def split: sum.splits prod.splits)

lemma run_step_log:
  "\<exists>ls. log_text (snd (run_step st d)) = log_text d @ ls \<and>
        list_all (\<lambda>l. line_byte l = None \<or> line_byte l = Some (step_index st + 1)) ls"
proof (cases st)
  case (Step ph bv idx tok sn)
  show ?thesis
  proof (cases ph)
    case SelectSegment
    then show ?thesis unfolding Step
      by (auto simp: step_select_segment_def split: sum.splits prod.splits)
  next
    case ShowOffset
    then show ?thesis unfolding Step
      by (auto simp: step_show_offset_def split: option.splits prod.splits)
  next
    case CalcPhysical
    then show ?thesis unfolding Step
      by (auto simp: step_calc_physical_def split: option.splits prod.splits)
  next
    case Write
    show ?thesis
    proof (cases "current_alloc_info d")
      case None
      then show ?thesis unfolding Step Write by (simp add: step_write_def)
    next
      case (Some info)
      obtain s b off where info: "info = (s, b, off)" by (cases info) auto
      let ?d1 = "d\<lparr>memory := (memory d)(push_bit 4 b + off \<mapsto> current_byte_value d)\<rparr>"
      show ?thesis
      proof (cases "allocate_byte s (allocator d)")
        case (Inl e)
        then show ?thesis unfolding Step Write
          by (simp add: step_write_def Some info Let_def)
      next
        case (Inr ra)
        obtain r a' where ra: "ra = (r, a')" by (cases ra) auto
        obtain ls where ls: "log_text (special_operation tok s (?d1\<lparr>allocator := a'\<rparr>))
                               = log_text d @ ls" "list_all (\<lambda>l. line_byte l = None) ls"
          using special_operation_log [of tok s "?d1\<lparr>allocator := a'\<rparr>"] by auto
        have mono: "list_all (\<lambda>l. line_byte l = None \<or> line_byte l = Some (idx + 1)) ls"
          using ls(2) by (induction ls) auto
        show ?thesis unfolding Step Write
          using ls(1) mono
          by (auto simp: step_write_def Some info Inr ra Let_def split: option.splits)
      qed
    qed
  qed
qed

lemma run_step_memory:
  "memory (snd (run_step (Step SelectSegment bv idx tok sn) d)) = memory d"
  "memory (snd (run_step (Step ShowOffset bv idx tok sn) d)) = memory d"
  "memory (snd (run_step (Step CalcPhysical bv idx tok sn) d)) = memory d"
  by (simp_all add: step_select_segment_def step_show_offset_def step_calc_physical_def
        split: sum.splits option.splits prod.splits)

lemma concat_blocks_nth:
  assumes len: "\<And>j. length (f j) = c" and "i < m" and "k < c"
  shows "concat (map f [0..<m]) ! (c * i + k) = f i ! k"
  using assms(2)
proof (induction m)
  case 0
  then show ?case by simp
next
  case (Suc m)
  have l: "length (concat (map f [0..<m])) = c * m"
    by (induction m) (simp_all add: len)
  show ?case
  proof (cases "i < m")
    case True
    then have "c * i + k < c * m"
    proof -
      from True have "c * Suc i \<le> c * m" by (simp add: Suc_leI del: mult_Suc_right)
      with \<open>k < c\<close> show ?thesis by simp
    qed
    with True Suc.IH show ?thesis
      by (simp add: nth_append l)
  next
    case False
    with Suc.prems have "i = m" by simp
    then show ?thesis
      by (simp add: nth_append l)
  qed
qed

lemma planned_nth:
  assumes "i < m" and "k < 4"
  shows "concat (map (\<lambda>i. make_steps (bs ! i) i (toks ! i) (classify_input (toks ! i))) [0..<m])
           ! (4 * i + k)
         = make_steps (bs ! i) i (toks ! i) (classify_input (toks ! i)) ! k"
  by (rule concat_blocks_nth) (use assms in \<open>simp_all add: make_steps_def\<close>)

lemma allocate_byte_Inr:
  "next_offset (segments a t) < limit (segments a t) \<Longrightarrow>
   allocate_byte t a =
     Inr ((base (segments a t), next_offset (segments a t)),
          a\<lparr>segments := (segments a)(t := (segments a t)
             \<lparr>next_offset := next_offset (segments a t) + 1\<rparr>)\<rparr>)"
  by (simp add: allocate_byte_def Let_def)

lemma select_then_write:
  assumes "peek_next seg_name (allocator d0) = Inr ((b0, off0), a0)"
  shows "let r1 = step_select_segment bv i t seg_name d0;
             r2 = step_show_offset i (snd r1);
             r3 = step_calc_physical i (snd r2);
             r4 = step_write i t (snd r3)
         in fst r1 = None \<and> fst r2 = None \<and> fst r3 = None \<and> fst r4 = None \<and>
            current_alloc_info (snd r1) = Some (seg_name, b0, off0) \<and>
            memory (snd r3) = memory d0 \<and>
            memory (snd r4) = (memory d0)(push_bit 4 b0 + off0 \<mapsto> Some bv) \<and>
            row_phys (hd (tree (snd r4))) = push_bit 4 b0 + off0"
proof -
  from peek_next_Inr [OF assms]
  have a0: "a0 = allocator d0" and lt: "next_offset (segments (allocator d0) seg_name)
      < limit (segments (allocator d0) seg_name)"
    by simp_all
  define d1 where "d1 = snd (step_select_segment bv i t seg_name d0)"
  have r1: "step_select_segment bv i t seg_name d0 = (None, d1)"
    unfolding d1_def by (simp add: step_select_segment_def assms)
  have d1: "allocator d1 = allocator d0" "memory d1 = memory d0"
    "current_byte_value d1 = Some bv" "current_alloc_info d1 = Some (seg_name, b0, off0)"
    unfolding d1_def by (simp_all add: step_select_segment_def assms a0)
  define d2 where "d2 = log (LogNextFree (i + 1) seg_name off0) d1"
  have r2: "step_show_offset i d1 = (None, d2)"
    by (simp add: step_show_offset_def d1 d2_def)
  define d3 where "d3 = log (LogPhysical (i + 1) (fmt_phys_calc b0 off0)) d2"
  have r3: "step_calc_physical i d2 = (None, d3)"
    by (simp add: step_calc_physical_def d1 d2_def d3_def)
  have d3: "allocator d3 = allocator d0" "memory d3 = memory d0"
    "current_byte_value d3 = Some bv" "current_alloc_info d3 = Some (seg_name, b0, off0)"
    by (simp_all add: d3_def d2_def d1)
  have r4: "fst (step_write i t d3) = None"
    "memory (snd (step_write i t d3)) = (memory d0)(push_bit 4 b0 + off0 \<mapsto> Some bv)"
    "row_phys (hd (tree (snd (step_write i t d3)))) = push_bit 4 b0 + off0"
    by (simp_all add: step_write_def d3 Let_def allocate_byte_Inr [OF lt] fmt_phys_def)
  show ?thesis
    by (simp add: Let_def r1 r2 r3 r4 d1 d3)
qed

text \<open>
  Claim C4 says that every committed Write step stores its byte at \<open>(base << 4) + offset\<close>
  for the pair its own SelectSegment step previewed. When that SelectSegment step succeeds,
  the Write step does so (the lemmas on the Write step above). When it raises, the three steps after
  it are still in the queue, and the Write step commits with the byte and the pair of the
  byte before. With the stack segment full, bytes \<open>0x41, 0x58\<close> and tokens \<open>AX, PUSH\<close>:
  the SelectSegment step of the second byte raises \<open>OutOfMemory SS\<close>; its Write step
  returns without an exception, stores \<open>0x41\<close> at \<open>0x20000\<close> once more and moves the
  cursor of DS to 2; \<open>0x58\<close> is stored nowhere and offset 1 of DS stays unwritten.
\<close>

theorem write_after_failed_select:
  "(let full = init_dashboard\<lparr>allocator := init_allocator\<lparr>segments := init_segments
                 (SS := \<lparr>base = 0x3000, next_offset = 0x0FFF, limit = 0x0FFF\<rparr>)\<rparr>\<rparr>;
        planned = prepare_allocation [0x41, 0x58] [''AX'', ''PUSH''] full
    in step_queue (next_steps 4 planned)
         = [Step SelectSegment 0x58 1 ''PUSH'' SS, Step ShowOffset 0x58 1 ''PUSH'' SS,
            Step CalcPhysical 0x58 1 ''PUSH'' SS, Step Write 0x58 1 ''PUSH'' SS] \<and>
       memory (next_steps 4 planned) 0x20000 = Some (Some 0x41) \<and>
       fst (next_step (next_steps 4 planned)) = Some (OutOfMemory SS) \<and>
       current_alloc_info (next_steps 5 planned) = Some (DS, 0x2000, 0x0000) \<and>
       current_byte_value (next_steps 5 planned) = Some 0x41 \<and>
       step_queue (next_steps 7 planned) = [Step Write 0x58 1 ''PUSH'' SS] \<and>
       fst (next_step (next_steps 7 planned)) = None \<and>
       memory (next_steps 8 planned) 0x20000 = Some (Some 0x41) \<and>
       memory (next_steps 8 planned) 0x20001 = None \<and>
       memory (next_steps 8 planned) 0x30FFF = None \<and>
       tree (next_steps 8 planned)
         = [\<lparr>row_seg_off = (0x2000, 0x0000), row_phys = 0x20000, row_value = 0x41,
              row_segment = DS\<rparr>,
            \<lparr>row_seg_off = (0x2000, 0x0000), row_phys = 0x20000, row_value = 0x41,
              row_segment = DS\<rparr>] \<and>
       next_offset (segments (allocator (next_steps 8 planned)) DS) = 2 \<and>
       next_offset (segments (allocator (next_steps 8 planned)) SS) = 0x0FFF)"
  by code_simp

lemma run_auto_steps_Cons:
  "step_queue d = st # rest \<Longrightarrow>
   run_auto_steps d =
     (case run_step st (d\<lparr>step_queue := rest\<rparr>) of
        (Some x, d') \<Rightarrow> (Some x, d')
      | (None, d') \<Rightarrow> (None, d'\<lparr>after_id := True\<rparr>))"
  by (simp add: run_auto_steps_def)

lemma run_auto_steps_queue:
  "step_queue d = st # rest \<Longrightarrow> step_queue (snd (run_auto_steps d)) = rest"
proof -
  assume q: "step_queue d = st # rest"
  have "step_queue (snd (run_step st (d\<lparr>step_queue := rest\<rparr>))) = rest"
    by (simp add: run_step_step_queue)
  then show ?thesis
    unfolding run_auto_steps_Cons [OF q]
    by (auto split: prod.splits option.splits)
qed

lemma auto_steps_nth:
  "n < length (step_queue d) \<Longrightarrow> fst (auto_steps n d) = None \<Longrightarrow>
   step_queue (snd (auto_steps n d)) = drop n (step_queue d) \<and>
   auto_steps (Suc n) d =
     (case run_step (step_queue d ! n)
             ((snd (auto_steps n d))\<lparr>step_queue := drop (Suc n) (step_queue d)\<rparr>) of
        (Some x, d') \<Rightarrow> (Some x, d')
      | (None, d') \<Rightarrow> (None, d'\<lparr>after_id := True\<rparr>))"
proof (induction n arbitrary: d)
  case 0
  then obtain st rest where q: "step_queue d = st # rest"
    by (cases "step_queue d") auto
  show ?case
    by (simp add: q run_auto_steps_Cons [OF q] split: prod.splits option.splits)
next
  case (Suc n)
  then obtain st rest where q: "step_queue d = st # rest"
    by (cases "step_queue d") auto
  obtain r d1 where r: "run_auto_steps d = (r, d1)"
    by (cases "run_auto_steps d") auto
  show ?case
  proof (cases r)
    case (Some x)
    with r Suc.prems(2) show ?thesis by simp
  next
    case None
    have q1: "step_queue d1 = rest"
      using run_auto_steps_queue [OF q] r by simp
    have unfold: "auto_steps (Suc m) d = auto_steps m d1" for m
      by (simp add: r None q)
    have len: "n < length (step_queue d1)"
      using Suc.prems(1) q q1 by simp
    have ok: "fst (auto_steps n d1) = None"
      using Suc.prems(2) unfold by simp
    from Suc.IH [OF len ok]
    have A: "step_queue (snd (auto_steps n d1)) = drop n rest"
      and B: "auto_steps (Suc n) d1 =
        (case run_step (rest ! n) ((snd (auto_steps n d1))\<lparr>step_queue := drop (Suc n) rest\<rparr>) of
           (Some x, d') \<Rightarrow> (Some x, d')
         | (None, d') \<Rightarrow> (None, d'\<lparr>after_id := True\<rparr>))"
      unfolding q1 by blast+
    show ?thesis
      unfolding unfold q using A B by (simp del: auto_steps.simps)
  qed
qed

lemma enumerate_zip_blocks:
  "concat (map (\<lambda>i. make_steps (bs ! i) i (toks ! i) (classify_input (toks ! i))) [0..<m])
   = concat (map (\<lambda>i. [Step SelectSegment (bs ! i) i (toks ! i) (classify_input (toks ! i)),
                          Step ShowOffset (bs ! i) i (toks ! i) (classify_input (toks ! i)),
                          Step CalcPhysical (bs ! i) i (toks ! i) (classify_input (toks ! i)),
                          Step Write (bs ! i) i (toks ! i) (classify_input (toks ! i))])
                  [0..<m])"
  by (simp add: make_steps_def)

text \<open>
  Claim C10. \<open>prepare_allocation\<close> pairs bytes and tokens by position and queues four
  steps for each of the first \<open>min (length bytes) (length tokens)\<close> pairs, and nothing
  else: the bytes of the queued steps are the first \<open>length tokens\<close> bytes, four times
  each, so a byte beyond the token list has no step. Nothing is raised, and the log line
  reports the full number of bytes. For the text \<open>PUSH AX\<close>, six bytes and two tokens,
  eight steps are queued, for the bytes \<open>0x50\<close> and \<open>0x55\<close>, and draining the queue
  writes these two and no other.
\<close>

theorem prepare_allocation_surplus_bytes:
  "step_queue (prepare_allocation bs toks d) =
     concat (map (\<lambda>i. make_steps (bs ! i) i (toks ! i) (classify_input (toks ! i)))
                 [0..<min (length bs) (length toks)]) \<and>
   length (step_queue (prepare_allocation bs toks d)) = 4 * min (length bs) (length toks) \<and>
   map step_byte (step_queue (prepare_allocation bs toks d))
     = concat (map (replicate 4) (take (length toks) bs)) \<and>
   log_text (prepare_allocation bs toks d)
     = log_text d @ [LogPrepared (length bs) (4 * min (length bs) (length toks))] \<and>
   parse_input_to_bytes ''PUSH AX''
     = Inr ([0x50, 0x55, 0x53, 0x48, 0x41, 0x58], [''PUSH'', ''AX'']) \<and>
   fst (allocate_step_start ''PUSH AX'' init_dashboard) = None \<and>
   map step_byte (step_queue (snd (allocate_step_start ''PUSH AX'' init_dashboard)))
     = [0x50, 0x50, 0x50, 0x50, 0x55, 0x55, 0x55, 0x55] \<and>
   tree (next_steps 9 (snd (allocate_step_start ''PUSH AX'' init_dashboard)))
     = [\<lparr>row_seg_off = (0x2000, 0), row_phys = 0x20000, row_value = 0x55, row_segment = DS\<rparr>,
        \<lparr>row_seg_off = (0x3000, 0), row_phys = 0x30000, row_value = 0x50, row_segment = SS\<rparr>]"
proof -
  have len: "length (concat (map (\<lambda>i. make_steps (bs ! i) i (toks ! i) (classify_input (toks ! i)))
                     [0..<m])) = 4 * m" for m
    by (induction m) (simp_all add: make_steps_def)
  have q: "step_queue (prepare_allocation bs toks d) =
     concat (map (\<lambda>i. make_steps (bs ! i) i (toks ! i) (classify_input (toks ! i)))
                 [0..<min (length bs) (length toks)])"
    by (simp add: prepare_allocation_eq)
  have l: "length (step_queue (prepare_allocation bs toks d)) = 4 * min (length bs) (length toks)"
    unfolding q by (rule len)
  have b: "map step_byte (step_queue (prepare_allocation bs toks d))
     = concat (map (replicate 4) (take (length toks) bs))"
    unfolding q by (rule planned_bytes)
  have lg: "log_text (prepare_allocation bs toks d)
     = log_text d @ [LogPrepared (length bs) (4 * min (length bs) (length toks))]"
    by (simp add: prepare_allocation_eq)
  have p: "parse_input_to_bytes ''PUSH AX''
     = Inr ([0x50, 0x55, 0x53, 0x48, 0x41, 0x58], [''PUSH'', ''AX''])"
    by code_simp
  have e: "fst (allocate_step_start ''PUSH AX'' init_dashboard) = None"
    by (simp add: allocate_step_start_def p)
  have s: "map step_byte (step_queue (snd (allocate_step_start ''PUSH AX'' init_dashboard)))
     = [0x50, 0x50, 0x50, 0x50, 0x55, 0x55, 0x55, 0x55]"
    by code_simp
  have t: "tree (next_steps 9 (snd (allocate_step_start ''PUSH AX'' init_dashboard)))
     = [\<lparr>row_seg_off = (0x2000, 0), row_phys = 0x20000, row_value = 0x55, row_segment = DS\<rparr>,
        \<lparr>row_seg_off = (0x3000, 0), row_phys = 0x30000, row_value = 0x50, row_segment = SS\<rparr>]"
    by code_simp
  from q l b lg p e s t show ?thesis by blast
qed

text \<open>
  Claim C8. The queue that \<open>prepare_allocation\<close> builds is, for each planned pair in
  turn, the four steps SelectSegment, ShowOffset, CalcPhysical (the ComputePhysical
  phase), Write of that pair: the steps of pair \<open>i\<close> are at positions \<open>4i\<close> to
  \<open>4i + 3\<close>. Pressing ``Next Step'' takes the steps from the front of the queue: after
  \<open>n\<close> presses the queue is the old one without its first \<open>n\<close> steps, and press
  \<open>n + 1\<close> runs step number \<open>n\<close> of the queue on the dashboard the first \<open>n\<close> presses
  left. So the four steps of byte \<open>i\<close> have run before any step of byte \<open>i + 1\<close>
  starts. The timer loop of the automatic mode takes the steps from the front in the same
  way, as long as no step raises. A step changes the memory map only if it is a Write
  step, and the log lines it adds carry its own byte number or none.
\<close>

theorem steps_execute_in_order:
  "step_queue (prepare_allocation bs toks d) =
     concat (map (\<lambda>i. [Step SelectSegment (bs ! i) i (toks ! i) (classify_input (toks ! i)),
                        Step ShowOffset (bs ! i) i (toks ! i) (classify_input (toks ! i)),
                        Step CalcPhysical (bs ! i) i (toks ! i) (classify_input (toks ! i)),
                        Step Write (bs ! i) i (toks ! i) (classify_input (toks ! i))])
                 [0..<min (length bs) (length toks)]) \<and>
   (i < min (length bs) (length toks) \<longrightarrow>
      (let q = step_queue (prepare_allocation bs toks d); c = classify_input (toks ! i) in
       q ! (4 * i) = Step SelectSegment (bs ! i) i (toks ! i) c \<and>
       q ! (4 * i + 1) = Step ShowOffset (bs ! i) i (toks ! i) c \<and>
       q ! (4 * i + 2) = Step CalcPhysical (bs ! i) i (toks ! i) c \<and>
       q ! (4 * i + 3) = Step Write (bs ! i) i (toks ! i) c)) \<and>
   (n < length (step_queue e) \<longrightarrow>
      step_queue (next_steps n e) = drop n (step_queue e) \<and>
      next_steps (Suc n) e =
        snd (run_step (step_queue e ! n)
              ((next_steps n e)\<lparr>after_id := False,
                                 step_queue := drop (Suc n) (step_queue e)\<rparr>))) \<and>
   (n < length (step_queue e) \<and> fst (auto_steps n e) = None \<longrightarrow>
      step_queue (snd (auto_steps n e)) = drop n (step_queue e) \<and>
      auto_steps (Suc n) e =
        (case run_step (step_queue e ! n)
                ((snd (auto_steps n e))\<lparr>step_queue := drop (Suc n) (step_queue e)\<rparr>) of
           (Some x, d') \<Rightarrow> (Some x, d')
         | (None, d') \<Rightarrow> (None, d'\<lparr>after_id := True\<rparr>))) \<and>
   memory (snd (run_step (Step SelectSegment bv k tok sn) e)) = memory e \<and>
   memory (snd (run_step (Step ShowOffset bv k tok sn) e)) = memory e \<and>
   memory (snd (run_step (Step CalcPhysical bv k tok sn) e)) = memory e \<and>
   (\<exists>ls. log_text (snd (run_step st e)) = log_text e @ ls \<and>
         list_all (\<lambda>l. line_byte l = None \<or> line_byte l = Some (step_index st + 1)) ls)"
proof -
  let ?m = "min (length bs) (length toks)"
  have q: "step_queue (prepare_allocation bs toks d) =
     concat (map (\<lambda>i. make_steps (bs ! i) i (toks ! i) (classify_input (toks ! i))) [0..<?m])"
    by (simp add: prepare_allocation_eq)
  have c1: "step_queue (prepare_allocation bs toks d) =
     concat (map (\<lambda>i. [Step SelectSegment (bs ! i) i (toks ! i) (classify_input (toks ! i)),
                        Step ShowOffset (bs ! i) i (toks ! i) (classify_input (toks ! i)),
                        Step CalcPhysical (bs ! i) i (toks ! i) (classify_input (toks ! i)),
                        Step Write (bs ! i) i (toks ! i) (classify_input (toks ! i))])
                 [0..<?m])"
    unfolding q by (rule enumerate_zip_blocks)
  have c2: "i < ?m \<longrightarrow>
      (let q = step_queue (prepare_allocation bs toks d); c = classify_input (toks ! i) in
       q ! (4 * i) = Step SelectSegment (bs ! i) i (toks ! i) c \<and>
       q ! (4 * i + 1) = Step ShowOffset (bs ! i) i (toks ! i) c \<and>
       q ! (4 * i + 2) = Step CalcPhysical (bs ! i) i (toks ! i) c \<and>
       q ! (4 * i + 3) = Step Write (bs ! i) i (toks ! i) c)"
  proof
    assume i: "i < ?m"
    have n0: "step_queue (prepare_allocation bs toks d) ! (4 * i + 0)
                = make_steps (bs ! i) i (toks ! i) (classify_input (toks ! i)) ! 0"
      unfolding q by (rule planned_nth [OF i]) simp
    have n1: "step_queue (prepare_allocation bs toks d) ! (4 * i + 1)
                = make_steps (bs ! i) i (toks ! i) (classify_input (toks ! i)) ! 1"
      unfolding q by (rule planned_nth [OF i]) simp
    have n2: "step_queue (prepare_allocation bs toks d) ! (4 * i + 2)
                = make_steps (bs ! i) i (toks ! i) (classify_input (toks ! i)) ! 2"
      unfolding q by (rule planned_nth [OF i]) simp
    have n3: "step_queue (prepare_allocation bs toks d) ! (4 * i + 3)
                = make_steps (bs ! i) i (toks ! i) (classify_input (toks ! i)) ! 3"
      unfolding q by (rule planned_nth [OF i]) simp
    from n0 n1 n2 n3
    show "let q = step_queue (prepare_allocation bs toks d); c = classify_input (toks ! i) in
       q ! (4 * i) = Step SelectSegment (bs ! i) i (toks ! i) c \<and>
       q ! (4 * i + 1) = Step ShowOffset (bs ! i) i (toks ! i) c \<and>
       q ! (4 * i + 2) = Step CalcPhysical (bs ! i) i (toks ! i) c \<and>
       q ! (4 * i + 3) = Step Write (bs ! i) i (toks ! i) c"
      by (simp add: Let_def make_steps_def numeral_3_eq_3 numeral_2_eq_2)
  qed
  have c3: "n < length (step_queue e) \<longrightarrow>
      step_queue (next_steps n e) = drop n (step_queue e) \<and>
      next_steps (Suc n) e =
        snd (run_step (step_queue e ! n)
              ((next_steps n e)\<lparr>after_id := False,
                                 step_queue := drop (Suc n) (step_queue e)\<rparr>))"
    using next_steps_queue [of n e] next_steps_nth [of n e] by simp
  have c4: "n < length (step_queue e) \<and> fst (auto_steps n e) = None \<longrightarrow>
      step_queue (snd (auto_steps n e)) = drop n (step_queue e) \<and>
      auto_steps (Suc n) e =
        (case run_step (step_queue e ! n)
                ((snd (auto_steps n e))\<lparr>step_queue := drop (Suc n) (step_queue e)\<rparr>) of
           (Some x, d') \<Rightarrow> (Some x, d')
         | (None, d') \<Rightarrow> (None, d'\<lparr>after_id := True\<rparr>))"
    using auto_steps_nth [of n e] by blast
  from c1 c2 c3 c4 run_step_memory [of bv k tok sn e] run_step_log [of st e]
  show ?thesis by blast
qed

theorem steps_execute_in_order_witness:
  "(1::nat) < min (length [1, 2 :: int]) (length [''1'', ''2'']) \<and>
   4 < length (step_queue (prepare_allocation [1, 2] [''1'', ''2''] init_dashboard)) \<and>
   step_queue (prepare_allocation [1, 2] [''1'', ''2''] init_dashboard) ! 4
     = Step SelectSegment 2 1 ''2'' DS \<and>
   step_queue (prepare_allocation [1, 2] [''1'', ''2''] init_dashboard) ! 7
     = Step Write 2 1 ''2'' DS \<and>
   step_queue (next_steps 4 (prepare_allocation [1, 2] [''1'', ''2''] init_dashboard))
     = drop 4 (step_queue (prepare_allocation [1, 2] [''1'', ''2''] init_dashboard)) \<and>
   next_steps 5 (prepare_allocation [1, 2] [''1'', ''2''] init_dashboard)
     = snd (run_step (Step SelectSegment 2 1 ''2'' DS)
             ((next_steps 4 (prepare_allocation [1, 2] [''1'', ''2''] init_dashboard))
                \<lparr>after_id := False,
                  step_queue := drop 5 (step_queue
                     (prepare_allocation [1, 2] [''1'', ''2''] init_dashboard))\<rparr>)) \<and>
   fst (auto_steps 4 (prepare_allocation [1, 2] [''1'', ''2''] init_dashboard)) = None \<and>
   auto_steps 5 (prepare_allocation [1, 2] [''1'', ''2''] init_dashboard)
     = (case run_step (Step SelectSegment 2 1 ''2'' DS)
               ((snd (auto_steps 4 (prepare_allocation [1, 2] [''1'', ''2''] init_dashboard)))
                  \<lparr>step_queue := drop 5 (step_queue
                     (prepare_allocation [1, 2] [''1'', ''2''] init_dashboard))\<rparr>) of
          (Some x, d') \<Rightarrow> (Some x, d')
        | (None, d') \<Rightarrow> (None, d'\<lparr>after_id := True\<rparr>))"
proof -
  let ?P = "prepare_allocation [1, 2] [''1'', ''2''] init_dashboard"
  have h1: "(1::nat) < min (length [1, 2 :: int]) (length [''1'', ''2''])" by simp
  have c: "classify_input ''2'' = DS" by code_simp
  note inst = steps_execute_in_order [where bs = "[1, 2]" and toks = "[''1'', ''2'']"
      and d = init_dashboard and i = 1 and n = 4 and e = ?P]
  from inst have len: "step_queue ?P =
     concat (map (\<lambda>i. [Step SelectSegment ([1, 2] ! i) i ([''1'', ''2''] ! i)
                           (classify_input ([''1'', ''2''] ! i)),
                        Step ShowOffset ([1, 2] ! i) i ([''1'', ''2''] ! i)
                           (classify_input ([''1'', ''2''] ! i)),
                        Step CalcPhysical ([1, 2] ! i) i ([''1'', ''2''] ! i)
                           (classify_input ([''1'', ''2''] ! i)),
                        Step Write ([1, 2] ! i) i ([''1'', ''2''] ! i)
                           (classify_input ([''1'', ''2''] ! i))])
                 [0..<min (length [1, 2 :: int]) (length [''1'', ''2''])])"
    by blast
  have h2: "4 < length (step_queue ?P)"
    unfolding len by (simp add: upt_rec)
  from inst h1 have nth:
    "(let q = step_queue ?P; c = classify_input ([''1'', ''2''] ! 1) in
       q ! (4 * 1) = Step SelectSegment ([1, 2] ! 1) 1 ([''1'', ''2''] ! 1) c \<and>
       q ! (4 * 1 + 1) = Step ShowOffset ([1, 2] ! 1) 1 ([''1'', ''2''] ! 1) c \<and>
       q ! (4 * 1 + 2) = Step CalcPhysical ([1, 2] ! 1) 1 ([''1'', ''2''] ! 1) c \<and>
       q ! (4 * 1 + 3) = Step Write ([1, 2] ! 1) 1 ([''1'', ''2''] ! 1) c)"
    by blast
  then have n4: "step_queue ?P ! 4 = Step SelectSegment 2 1 ''2'' DS"
    and n7: "step_queue ?P ! 7 = Step Write 2 1 ''2'' DS"
    by (simp_all add: Let_def c)
  from inst h2 have dr: "step_queue (next_steps 4 ?P) = drop 4 (step_queue ?P)"
    and nx: "next_steps (Suc 4) ?P =
        snd (run_step (step_queue ?P ! 4)
              ((next_steps 4 ?P)\<lparr>after_id := False,
                                 step_queue := drop (Suc 4) (step_queue ?P)\<rparr>))"
    by blast+
  have h3: "fst (auto_steps 4 ?P) = None" by code_simp
  from inst h2 h3 have au: "auto_steps (Suc 4) ?P =
        (case run_step (step_queue ?P ! 4)
                ((snd (auto_steps 4 ?P))\<lparr>step_queue := drop (Suc 4) (step_queue ?P)\<rparr>) of
           (Some x, d') \<Rightarrow> (Some x, d')
         | (None, d') \<Rightarrow> (None, d'\<lparr>after_id := True\<rparr>))"
    by blast
  have five: "Suc 4 = 5" by simp
  from h1 h2 n4 n7 dr nx [unfolded n4 five] h3 au [unfolded n4 five] show ?thesis by blast
qed

end
